theory Spec2Isabelle
  imports Main "HOL-Library.AList"
begin

section \<open>Data model of \<^verbatim>\<open>routing_protocol.py\<close>\<close>

text \<open>
  Node identifiers are Python strings. A cost is a Python number: an integer, or
  \<^verbatim>\<open>float('inf')\<close> for an unreached destination. Link costs are integers (as in
  \<^verbatim>\<open>main\<close>; other floats are outside this model).
  Python dictionaries keep insertion order, so they are association lists: a lookup is
  \<^const>\<open>map_of\<close>, an assignment \<^verbatim>\<open>d[k] = v\<close> is \<^const>\<open>AList.update\<close> (in place when
  the key exists, appended otherwise).
\<close>

type_synonym name = string

datatype cost = Num int | PosInf

instantiation cost :: linorder
begin

fun less_eq_cost :: "cost \<Rightarrow> cost \<Rightarrow> bool" where
  "less_eq_cost (Num x) (Num y) = (x \<le> y)"
| "less_eq_cost PosInf (Num y) = False"
| "less_eq_cost a PosInf = True"

fun less_cost :: "cost \<Rightarrow> cost \<Rightarrow> bool" where
  "less_cost (Num x) (Num y) = (x < y)"
| "less_cost (Num x) PosInf = True"
| "less_cost PosInf b = False"

instance
proof
  fix x y z :: cost
  show "(x < y) = (x \<le> y \<and> \<not> y \<le> x)" by (cases x; cases y) auto
  show "x \<le> x" by (cases x) auto
  show "x \<le> y \<Longrightarrow> y \<le> z \<Longrightarrow> x \<le> z" by (cases x; cases y; cases z) auto
  show "x \<le> y \<Longrightarrow> y \<le> x \<Longrightarrow> x = y" by (cases x; cases y) auto
  show "x \<le> y \<or> y \<le> x" by (cases x; cases y) auto
qed

end

text \<open>Python's \<^verbatim>\<open>+\<close> on costs: infinity absorbs.\<close>

fun cost_add :: "cost \<Rightarrow> cost \<Rightarrow> cost" where
  "cost_add (Num x) (Num y) = Num (x + y)"
| "cost_add a b = PosInf"

type_synonym entry = "cost \<times> name option"
type_synonym table = "(name \<times> entry) list"

record node =
  name :: name
  neighbors :: "(name \<times> int) list"
  routing_table :: table

datatype error = KeyError name

section \<open>Class \<^verbatim>\<open>Node\<close>\<close>

definition Node :: "name \<Rightarrow> node" where
  "Node nm = \<lparr>name = nm, neighbors = [], routing_table = []\<rparr>"

definition add_neighbor :: "node \<Rightarrow> name \<Rightarrow> int \<Rightarrow> node" where
  "add_neighbor self neighbor c =
     self\<lparr>neighbors := AList.update neighbor c (neighbors self),
          routing_table := AList.update neighbor (Num c, Some neighbor) (routing_table self)\<rparr>"

fun init_loop :: "name \<Rightarrow> name list \<Rightarrow> table \<Rightarrow> table" where
  "init_loop self [] rt = rt"
| "init_loop self (nd # all_nodes) rt =
     (if nd \<noteq> self \<and> map_of rt nd = None
      then init_loop self all_nodes (AList.update nd (PosInf, None) rt)
      else init_loop self all_nodes rt)"

definition initialize_routing_table :: "node \<Rightarrow> name list \<Rightarrow> node" where
  "initialize_routing_table self all_nodes =
     self\<lparr>routing_table :=
       AList.update (name self) (Num 0, Some (name self))
         (init_loop (name self) all_nodes (routing_table self))\<rparr>"

text \<open>\<^verbatim>\<open>self.routing_table.get(destination, (float('inf'), None))\<close>\<close>

definition table_get :: "table \<Rightarrow> name \<Rightarrow> entry" where
  "table_get rt destination =
     (case map_of rt destination of Some e \<Rightarrow> e | None \<Rightarrow> (PosInf, None))"

text \<open>
  The \<^verbatim>\<open>for\<close> loop of \<^verbatim>\<open>update_routing_table\<close> over \<^verbatim>\<open>neighbor_table.items()\<close>,
  threading the table and the \<^verbatim>\<open>updated\<close> flag.
\<close>

fun relax_loop :: "name \<Rightarrow> name \<Rightarrow> int \<Rightarrow> table \<Rightarrow> table \<Rightarrow> bool \<Rightarrow> table \<times> bool" where
  "relax_loop self neighbor c [] rt updated = (rt, updated)"
| "relax_loop self neighbor c ((destination, (neighbor_cost, neighbor_next_hop)) # items) rt updated =
     (if destination = self then relax_loop self neighbor c items rt updated
      else
        let new_cost = cost_add (Num c) neighbor_cost;
            current_cost = fst (table_get rt destination)
        in if new_cost < current_cost
           then relax_loop self neighbor c items
                  (AList.update destination (new_cost, Some neighbor) rt) True
           else relax_loop self neighbor c items rt updated)"

text \<open>
  The result is the node after the call together with the outcome: the
  \<^verbatim>\<open>KeyError\<close> of \<^verbatim>\<open>self.neighbors[neighbor]\<close>, or the returned flag.
\<close>

definition update_routing_table :: "node \<Rightarrow> name \<Rightarrow> table \<Rightarrow> node \<times> (error + bool)" where
  "update_routing_table self neighbor neighbor_table =
     (case map_of (neighbors self) neighbor of
        None \<Rightarrow> (self, Inl (KeyError neighbor))
      | Some cost_to_neighbor \<Rightarrow>
          (case relax_loop (name self) neighbor cost_to_neighbor neighbor_table
                  (routing_table self) False of
             (rt, updated) \<Rightarrow> (self\<lparr>routing_table := rt\<rparr>, Inr updated)))"

text \<open>\<^verbatim>\<open>copy.deepcopy(self.routing_table)\<close>: tables are values here, the copy is the table.\<close>

definition send_routing_table :: "node \<Rightarrow> table" where
  "send_routing_table self = routing_table self"

section \<open>Class \<^verbatim>\<open>Network\<close>\<close>

record network =
  nodes :: "(name \<times> node) list"

definition Network :: network where
  "Network = \<lparr>nodes = []\<rparr>"

definition add_node :: "network \<Rightarrow> name \<Rightarrow> network" where
  "add_node net node_name =
     (if map_of (nodes net) node_name = None
      then net\<lparr>nodes := AList.update node_name (Node node_name) (nodes net)\<rparr>
      else net)"

definition add_link :: "network \<Rightarrow> name \<Rightarrow> name \<Rightarrow> int \<Rightarrow> network" where
  "add_link net node1 node2 c =
     (let net1 = add_node net node1;
          net2 = add_node net1 node2;
          net3 = net2\<lparr>nodes := AList.map_entry node1 (\<lambda>nd. add_neighbor nd node2 c) (nodes net2)\<rparr>
      in net3\<lparr>nodes := AList.map_entry node2 (\<lambda>nd. add_neighbor nd node1 c) (nodes net3)\<rparr>)"

definition initialize_routing_tables :: "network \<Rightarrow> network" where
  "initialize_routing_tables net =
     net\<lparr>nodes := map (\<lambda>(k, nd). (k, initialize_routing_table nd (map fst (nodes net))))
                    (nodes net)\<rparr>"

text \<open>Step 1 of an iteration: the dictionary of the tables sent, keyed by node name.\<close>

definition sent_tables :: "network \<Rightarrow> (name \<times> table) list" where
  "sent_tables net =
     fold (\<lambda>nd sent. AList.update (name nd) (send_routing_table nd) sent)
          (map snd (nodes net)) []"

text \<open>
  Step 2, inner loop: one node takes the table of each of its neighbours in turn. The
  lookup \<^verbatim>\<open>sent_tables[neighbor]\<close> raises \<^verbatim>\<open>KeyError\<close> for a neighbour that is no
  node of the network.
\<close>

fun neighbor_loop ::
  "(name \<times> table) list \<Rightarrow> name list \<Rightarrow> node \<Rightarrow> bool \<Rightarrow> node \<times> (error + bool)" where
  "neighbor_loop sent [] nd updated = (nd, Inr updated)"
| "neighbor_loop sent (neighbor # rest) nd updated =
     (case map_of sent neighbor of
        None \<Rightarrow> (nd, Inl (KeyError neighbor))
      | Some neighbor_table \<Rightarrow>
          (case update_routing_table nd neighbor neighbor_table of
             (nd', Inl e) \<Rightarrow> (nd', Inl e)
           | (nd', Inr u) \<Rightarrow> neighbor_loop sent rest nd' (if u then True else updated)))"

text \<open>Step 2, outer loop over \<^verbatim>\<open>self.nodes.values()\<close>; an exception leaves the rest untouched.\<close>

fun node_loop ::
  "(name \<times> table) list \<Rightarrow> (name \<times> node) list \<Rightarrow> bool \<Rightarrow> (name \<times> node) list \<times> (error + bool)" where
  "node_loop sent [] updated = ([], Inr updated)"
| "node_loop sent ((k, nd) # rest) updated =
     (case neighbor_loop sent (map fst (neighbors nd)) nd updated of
        (nd', Inl e) \<Rightarrow> ((k, nd') # rest, Inl e)
      | (nd', Inr u) \<Rightarrow>
          (case node_loop sent rest u of (rest', r) \<Rightarrow> ((k, nd') # rest', r)))"

text \<open>
  One pass of the body of \<^verbatim>\<open>while True\<close>. Printing has no effect on the state, and the
  counter \<^verbatim>\<open>iteration\<close> of the source is only printed, so neither is kept.
\<close>

definition iteration :: "network \<Rightarrow> network \<times> (error + bool)" where
  "iteration net =
     (case node_loop (sent_tables net) (nodes net) False of
        (ns, r) \<Rightarrow> (net\<lparr>nodes := ns\<rparr>, r))"



section \<open>Building a topology\<close>

text \<open>A network is what a sequence of \<^verbatim>\<open>add_node\<close> and \<^verbatim>\<open>add_link\<close> calls makes of \<^verbatim>\<open>Network()\<close>.\<close>

datatype build_op = AddNode name | AddLink name name int

fun apply_op :: "build_op \<Rightarrow> network \<Rightarrow> network" where
  "apply_op (AddNode a) net = add_node net a"
| "apply_op (AddLink a b c) net = add_link net a b c"

definition build :: "build_op list \<Rightarrow> network" where
  "build ops = fold apply_op ops Network"


section \<open>Reading a network\<close>

definition node_names :: "network \<Rightarrow> name set" where
  "node_names net = fst ` set (nodes net)"

definition table_of :: "network \<Rightarrow> name \<Rightarrow> table" where
  "table_of net a = (case map_of (nodes net) a of Some nd \<Rightarrow> routing_table nd | None \<Rightarrow> [])"

definition cost_of :: "network \<Rightarrow> name \<Rightarrow> name \<Rightarrow> cost" where
  "cost_of net a b = fst (table_get (table_of net a) b)"

definition link_cost :: "network \<Rightarrow> name \<Rightarrow> name \<Rightarrow> int option" where
  "link_cost net a b =
     (case map_of (nodes net) a of Some nd \<Rightarrow> map_of (neighbors nd) b | None \<Rightarrow> None)"

text \<open>
  The cost of a path, given as the list of the nodes it visits: the sum of the costs of its
  links; \<^const>\<open>None\<close> when the list is no path of the network.
\<close>

fun path_cost :: "network \<Rightarrow> name list \<Rightarrow> int option" where
  "path_cost net [] = None"
| "path_cost net [a] = (if map_of (nodes net) a = None then None else Some 0)"
| "path_cost net (a # b # p) =
     (case link_cost net a b of
        None \<Rightarrow> None
      | Some c \<Rightarrow> (case path_cost net (b # p) of None \<Rightarrow> None | Some x \<Rightarrow> Some (c + x)))"

section \<open>Tables as objects in a store\<close>

text \<open>
  In Python a routing table is a dictionary object and a node holds a reference to it; its
  entries are tuples of numbers, strings and \<^verbatim>\<open>None\<close>, which are immutable. To state that
  \<^verbatim>\<open>send_routing_table\<close> returns a copy, the dictionaries are put in a store, a list of
  tables indexed by reference. \<^verbatim>\<open>copy.deepcopy\<close> allocates a new dictionary with the
  contents of the old one; \<^verbatim>\<open>update_routing_table\<close> writes to the dictionary the node
  refers to and reads the one passed as \<^verbatim>\<open>neighbor_table\<close>.
\<close>

type_synonym ref = nat

type_synonym store = "table list"

record node_obj =
  obj_name :: name
  obj_neighbors :: "(name \<times> int) list"
  obj_table :: ref

definition deepcopy :: "store \<Rightarrow> ref \<Rightarrow> ref \<times> store" where
  "deepcopy st r = (length st, st @ [st ! r])"

definition send_routing_table_obj :: "store \<Rightarrow> node_obj \<Rightarrow> ref \<times> store" where
  "send_routing_table_obj st self = deepcopy st (obj_table self)"

definition node_value :: "store \<Rightarrow> node_obj \<Rightarrow> node" where
  "node_value st self =
     \<lparr>name = obj_name self, neighbors = obj_neighbors self, routing_table = st ! obj_table self\<rparr>"

definition update_routing_table_obj ::
  "store \<Rightarrow> node_obj \<Rightarrow> name \<Rightarrow> ref \<Rightarrow> store \<times> (error + bool)" where
  "update_routing_table_obj st self neighbor neighbor_table =
     (case update_routing_table (node_value st self) neighbor (st ! neighbor_table) of
        (self', r) \<Rightarrow> (st[obj_table self := routing_table self'], r))"

section \<open>Invariants and specification vocabulary\<close>

text \<open>
  What one node may do to its table during an iteration in which the tables \<open>sent\<close> were
  exported: every entry is either kept or replaced by a strictly cheaper one through a
  neighbour, computed from that neighbour's exported entry.
\<close>

definition node_step :: "(name \<times> table) list \<Rightarrow> node \<Rightarrow> node \<Rightarrow> bool" where
  "node_step sent nd nd' \<longleftrightarrow>
     name nd' = name nd \<and> neighbors nd' = neighbors nd \<and>
     (distinct (map fst (routing_table nd)) \<longrightarrow> distinct (map fst (routing_table nd'))) \<and>
     (\<forall>d. map_of (routing_table nd') d = map_of (routing_table nd) d \<or>
        (d \<noteq> name nd \<and>
         (\<exists>nb c t nc nh. map_of (neighbors nd) nb = Some c \<and> map_of sent nb = Some t \<and>
             (d, (nc, nh)) \<in> set t \<and>
             map_of (routing_table nd') d = Some (cost_add (Num c) nc, Some nb) \<and>
             cost_add (Num c) nc < fst (table_get (routing_table nd) d))))"






text \<open>The part of a network that the convergence loop never assigns.\<close>

definition topology :: "network \<Rightarrow> (name \<times> name \<times> (name \<times> int) list) list" where
  "topology net = map (\<lambda>(k, nd). (k, name nd, neighbors nd)) (nodes net)"











section \<open>Example data\<close>


definition nodeA :: node where
  "nodeA = initialize_routing_table
     (add_neighbor (add_neighbor (Node ''A'') ''B'' 1) ''C'' 4) [''A'', ''B'', ''C'', ''D'']"

definition tableB :: table where
  "tableB = [(''A'', (Num 1, Some ''A'')), (''C'', (Num 2, Some ''C'')),
             (''D'', (Num 5, Some ''D'')), (''B'', (Num 0, Some ''B''))]"




definition pair_net :: network where
  "pair_net = initialize_routing_tables (build [AddLink ''A'' ''B'' 1])"

definition store0 :: store where
  "store0 = [routing_table nodeA, tableB]"

definition objA :: node_obj where
  "objA = \<lparr>obj_name = ''A'', obj_neighbors = [(''B'', 1), (''C'', 4)], obj_table = 0\<rparr>"

section \<open>Relaxation against one neighbour table\<close>

lemma table_get_update:
  "table_get (AList.update k v rt) d = (if d = k then v else table_get rt d)"
  by (simp add: table_get_def update_conv')

lemma table_get_map_of_eq: "map_of rt' d = map_of rt d \<Longrightarrow> table_get rt' d = table_get rt d"
  by (simp add: table_get_def)

lemma relax_loop_entry:
  "relax_loop self nb c items rt upd = (rt', upd') \<Longrightarrow>
     map_of rt' d = map_of rt d \<or>
     (d \<noteq> self \<and> (\<exists>nc nh. (d, (nc, nh)) \<in> set items \<and>
        map_of rt' d = Some (cost_add (Num c) nc, Some nb) \<and>
        cost_add (Num c) nc < fst (table_get rt d)))"
proof (induction self nb c items rt upd rule: relax_loop.induct)
  case (1 self neighbor c rt updated)
  then show ?case by simp
next
  case (2 self neighbor c destination neighbor_cost neighbor_next_hop items rt updated)
  show ?case
  proof (cases "destination = self")
    case True
    with 2 show ?thesis by auto
  next
    case ne: False
    show ?thesis
    proof (cases "cost_add (Num c) neighbor_cost < fst (table_get rt destination)")
      case True
      let ?rt1 = "AList.update destination (cost_add (Num c) neighbor_cost, Some neighbor) rt"
      from 2(2)[OF ne refl refl True] 2(4) ne True
      have IH: "map_of rt' d = map_of ?rt1 d \<or>
     (d \<noteq> self \<and> (\<exists>nc nh. (d, (nc, nh)) \<in> set items \<and>
        map_of rt' d = Some (cost_add (Num c) nc, Some neighbor) \<and>
        cost_add (Num c) nc < fst (table_get ?rt1 d)))" by (simp add: Let_def)
      show ?thesis
      proof (cases "d = destination")
        case True
        with IH ne \<open>cost_add (Num c) neighbor_cost < fst (table_get rt destination)\<close>
        show ?thesis by (fastforce simp: table_get_update update_conv')
      next
        case False
        with IH show ?thesis by (auto simp: table_get_update update_conv')
      qed
    next
      case False
      with 2(3)[OF ne refl refl False] 2(4) ne show ?thesis by (auto simp: Let_def)
    qed
  qed
qed

lemma relax_loop_cost_le:
  assumes "relax_loop self nb c items rt upd = (rt', upd')"
  shows "fst (table_get rt' d) \<le> fst (table_get rt d)"
  using relax_loop_entry[OF assms, of d]
  by (auto simp: table_get_def)

lemma relax_loop_self:
  assumes "relax_loop self nb c items rt upd = (rt', upd')"
  shows "map_of rt' self = map_of rt self"
  using relax_loop_entry[OF assms, of self] by auto

lemma relax_loop_flag_mono:
  "relax_loop self nb c items rt upd = (rt', upd') \<Longrightarrow> upd \<Longrightarrow> upd'"
  by (induction self nb c items rt upd rule: relax_loop.induct)
     (auto simp: Let_def split: if_splits)


lemma relax_loop_unchanged:
  "relax_loop self nb c items rt upd = (rt', False) \<Longrightarrow> rt' = rt"
proof (induction self nb c items rt upd rule: relax_loop.induct)
  case (1 self neighbor c rt updated)
  then show ?case by simp
next
  case (2 self neighbor c destination neighbor_cost neighbor_next_hop items rt updated)
  show ?case
  proof (cases "destination \<noteq> self \<and> cost_add (Num c) neighbor_cost < fst (table_get rt destination)")
    case True
    with 2(4) relax_loop_flag_mono[of self neighbor c items
        "AList.update destination (cost_add (Num c) neighbor_cost, Some neighbor) rt" True rt' False]
    show ?thesis by (simp add: Let_def)
  next
    case False
    with 2(1,3) 2(4) show ?thesis by (auto simp: Let_def split: if_splits)
  qed
qed

lemma relax_loop_fixed:
  "relax_loop self nb c items rt upd = (rt', False) \<Longrightarrow> (d, (nc, nh)) \<in> set items \<Longrightarrow>
     d \<noteq> self \<Longrightarrow> \<not> cost_add (Num c) nc < fst (table_get rt d)"
proof (induction self nb c items rt upd rule: relax_loop.induct)
  case (1 self neighbor c rt updated)
  then show ?case by simp
next
  case (2 self neighbor c destination neighbor_cost neighbor_next_hop items rt updated)
  show ?case
  proof (cases "destination \<noteq> self \<and> cost_add (Num c) neighbor_cost < fst (table_get rt destination)")
    case True
    with 2(4) relax_loop_flag_mono[of self neighbor c items
        "AList.update destination (cost_add (Num c) neighbor_cost, Some neighbor) rt" True rt' False]
    show ?thesis by (simp add: Let_def)
  next
    case False
    with 2 show ?thesis by (auto simp: Let_def split: if_splits)
  qed
qed


lemma update_routing_table_frame:
  "update_routing_table self nb t = (self', r) \<Longrightarrow>
     name self' = name self \<and> neighbors self' = neighbors self"
  by (auto simp: update_routing_table_def split: option.splits prod.splits)

lemma update_routing_table_self:
  "update_routing_table self nb t = (self', r) \<Longrightarrow>
     map_of (routing_table self') (name self) = map_of (routing_table self) (name self)"
  by (auto simp: update_routing_table_def split: option.splits prod.splits
           dest: relax_loop_self)

lemma update_routing_table_cost_le:
  "update_routing_table self nb t = (self', r) \<Longrightarrow>
     fst (table_get (routing_table self') d) \<le> fst (table_get (routing_table self) d)"
  by (auto simp: update_routing_table_def split: option.splits prod.splits
           dest: relax_loop_cost_le)

lemma fold_update_self:
  "map_of (routing_table nd) (name nd) = Some v \<Longrightarrow>
   name (fold (\<lambda>(nb, t) nd. fst (update_routing_table nd nb t)) calls nd) = name nd \<and>
   map_of (routing_table (fold (\<lambda>(nb, t) nd. fst (update_routing_table nd nb t)) calls nd)) (name nd) = Some v"
proof (induction calls arbitrary: nd)
  case Nil
  then show ?case by simp
next
  case (Cons call calls)
  obtain nb t where call: "call = (nb, t)" by (cases call)
  obtain nd1 r where u: "update_routing_table nd nb t = (nd1, r)" by (cases "update_routing_table nd nb t")
  from update_routing_table_frame[OF u] update_routing_table_self[OF u] Cons.prems
  have "name nd1 = name nd" "map_of (routing_table nd1) (name nd1) = Some v" by auto
  with Cons.IH[of nd1] call u show ?case by simp
qed

lemma initialize_self_entry:
  "map_of (routing_table (initialize_routing_table self all_nodes)) (name self) = Some (Num 0, Some (name self))"
  "name (initialize_routing_table self all_nodes) = name self"
  by (simp_all add: initialize_routing_table_def update_conv')

section \<open>Rounds, invariants and convergence\<close>

lemma relax_loop_distinct:
  "relax_loop self nb c items rt upd = (rt', upd') \<Longrightarrow> distinct (map fst rt) \<Longrightarrow>
     distinct (map fst rt')"
  by (induction self nb c items rt upd rule: relax_loop.induct)
     (auto simp: Let_def distinct_update split: if_splits)

lemma node_step_refl: "node_step sent nd nd"
  by (simp add: node_step_def)

lemma node_step_cost_le:
  "node_step sent nd nd' \<Longrightarrow>
     fst (table_get (routing_table nd') d) \<le> fst (table_get (routing_table nd) d)"
  unfolding node_step_def
  by (elim conjE allE[of _ d]) (auto simp: table_get_def)

lemma node_step_trans:
  assumes "node_step sent nd nd1" and "node_step sent nd1 nd2"
  shows "node_step sent nd nd2"
proof -
  have nm: "name nd1 = name nd" "neighbors nd1 = neighbors nd"
    "name nd2 = name nd" "neighbors nd2 = neighbors nd"
    "distinct (map fst (routing_table nd)) \<longrightarrow> distinct (map fst (routing_table nd2))"
    using assms by (auto simp: node_step_def)
  have "map_of (routing_table nd2) d = map_of (routing_table nd) d \<or>
        (d \<noteq> name nd \<and>
         (\<exists>nb c t nc nh. map_of (neighbors nd) nb = Some c \<and> map_of sent nb = Some t \<and>
             (d, (nc, nh)) \<in> set t \<and>
             map_of (routing_table nd2) d = Some (cost_add (Num c) nc, Some nb) \<and>
             cost_add (Num c) nc < fst (table_get (routing_table nd) d)))" for d
  proof -
    from assms(2) have s2: "map_of (routing_table nd2) d = map_of (routing_table nd1) d \<or>
        (d \<noteq> name nd \<and>
         (\<exists>nb c t nc nh. map_of (neighbors nd) nb = Some c \<and> map_of sent nb = Some t \<and>
             (d, (nc, nh)) \<in> set t \<and>
             map_of (routing_table nd2) d = Some (cost_add (Num c) nc, Some nb) \<and>
             cost_add (Num c) nc < fst (table_get (routing_table nd1) d)))"
      unfolding node_step_def nm by blast
    from assms(1) have s1: "map_of (routing_table nd1) d = map_of (routing_table nd) d \<or>
        (d \<noteq> name nd \<and>
         (\<exists>nb c t nc nh. map_of (neighbors nd) nb = Some c \<and> map_of sent nb = Some t \<and>
             (d, (nc, nh)) \<in> set t \<and>
             map_of (routing_table nd1) d = Some (cost_add (Num c) nc, Some nb) \<and>
             cost_add (Num c) nc < fst (table_get (routing_table nd) d)))"
      unfolding node_step_def by blast
    have le: "fst (table_get (routing_table nd1) d) \<le> fst (table_get (routing_table nd) d)"
      by (rule node_step_cost_le[OF assms(1)])
    from s2 show ?thesis
    proof
      assume "map_of (routing_table nd2) d = map_of (routing_table nd1) d"
      with s1 show ?thesis by auto
    next
      assume "d \<noteq> name nd \<and>
         (\<exists>nb c t nc nh. map_of (neighbors nd) nb = Some c \<and> map_of sent nb = Some t \<and>
             (d, (nc, nh)) \<in> set t \<and>
             map_of (routing_table nd2) d = Some (cost_add (Num c) nc, Some nb) \<and>
             cost_add (Num c) nc < fst (table_get (routing_table nd1) d))"
      with le show ?thesis by (meson less_le_trans)
    qed
  qed
  with nm show ?thesis unfolding node_step_def by blast
qed

lemma update_node_step:
  assumes "update_routing_table nd nb t = (nd', r)" and "map_of sent nb = Some t"
  shows "node_step sent nd nd'"
proof (cases "map_of (neighbors nd) nb")
  case None
  with assms show ?thesis by (simp add: update_routing_table_def node_step_refl)
next
  case (Some c)
  with assms obtain rt' u where r: "relax_loop (name nd) nb c t (routing_table nd) False = (rt', u)"
    and nd': "nd' = nd\<lparr>routing_table := rt'\<rparr>"
    by (auto simp: update_routing_table_def split: prod.splits)
  show ?thesis
    unfolding node_step_def nd'
    using relax_loop_entry[OF r] relax_loop_distinct[OF r] Some assms(2) by simp blast
qed

lemma update_unchanged:
  assumes "update_routing_table nd nb t = (nd', Inr False)"
  shows "nd' = nd" and "map_of (neighbors nd) nb = Some c \<Longrightarrow> (d, (nc, nh)) \<in> set t \<Longrightarrow> d \<noteq> name nd \<Longrightarrow>
         \<not> cost_add (Num c) nc < fst (table_get (routing_table nd) d)"
proof -
  from assms obtain c' rt' where c': "map_of (neighbors nd) nb = Some c'"
    and r: "relax_loop (name nd) nb c' t (routing_table nd) False = (rt', False)"
    and nd': "nd' = nd\<lparr>routing_table := rt'\<rparr>"
    by (auto simp: update_routing_table_def split: option.splits prod.splits)
  from relax_loop_unchanged[OF r] nd' show "nd' = nd" by simp
  show "map_of (neighbors nd) nb = Some c \<Longrightarrow> (d, (nc, nh)) \<in> set t \<Longrightarrow> d \<noteq> name nd \<Longrightarrow>
         \<not> cost_add (Num c) nc < fst (table_get (routing_table nd) d)"
    using relax_loop_fixed[OF r] c' by auto
qed


lemma neighbor_loop_step:
  "neighbor_loop sent nbs nd upd = (nd', r) \<Longrightarrow> node_step sent nd nd'"
proof (induction sent nbs nd upd rule: neighbor_loop.induct)
  case (1 sent nd updated)
  then show ?case by (simp add: node_step_refl)
next
  case (2 sent neighbor rest nd updated)
  show ?case
  proof (cases "map_of sent neighbor")
    case None
    with 2(2) show ?thesis by (simp add: node_step_refl)
  next
    case (Some t)
    obtain nd1 r1 where u: "update_routing_table nd neighbor t = (nd1, r1)"
      by (cases "update_routing_table nd neighbor t")
    note s1 = update_node_step[OF u Some]
    show ?thesis
    proof (cases r1)
      case (Inl e)
      with 2(2) Some u s1 show ?thesis by simp
    next
      case (Inr u1)
      with 2(2) Some u have "neighbor_loop sent rest nd1 (if u1 then True else updated) = (nd', r)"
        by simp
      from 2(1)[OF Some u[symmetric] Inr this] s1 show ?thesis
        by (blast intro: node_step_trans)
    qed
  qed
qed

lemma neighbor_loop_flag_mono:
  "neighbor_loop sent nbs nd upd = (nd', Inr u) \<Longrightarrow> upd \<Longrightarrow> u"
proof (induction sent nbs nd upd rule: neighbor_loop.induct)
  case (1 sent nd updated)
  then show ?case by simp
next
  case (2 sent neighbor rest nd updated)
  from 2(2) obtain t where t: "map_of sent neighbor = Some t"
    by (auto split: option.splits)
  obtain nd1 r1 where u: "update_routing_table nd neighbor t = (nd1, r1)"
    by (cases "update_routing_table nd neighbor t")
  with 2(2) t obtain u1 where r1: "r1 = Inr u1"
    and rest: "neighbor_loop sent rest nd1 (if u1 then True else updated) = (nd', Inr u)"
    by (auto split: sum.splits)
  from 2(1)[OF t u[symmetric] r1 rest] 2(3) show ?case by simp
qed



lemma neighbor_loop_unchanged:
  "neighbor_loop sent nbs nd upd = (nd', Inr False) \<Longrightarrow>
     nd' = nd \<and>
     (\<forall>nb c t d nc nh. nb \<in> set nbs \<and> map_of (neighbors nd) nb = Some c \<and> map_of sent nb = Some t \<and>
         (d, (nc, nh)) \<in> set t \<and> d \<noteq> name nd \<longrightarrow>
         \<not> cost_add (Num c) nc < fst (table_get (routing_table nd) d))"
proof (induction sent nbs nd upd rule: neighbor_loop.induct)
  case (1 sent nd updated)
  then show ?case by simp
next
  case (2 sent neighbor rest nd updated)
  from 2(2) obtain t where t: "map_of sent neighbor = Some t"
    by (auto split: option.splits)
  obtain nd1 r1 where u: "update_routing_table nd neighbor t = (nd1, r1)"
    by (cases "update_routing_table nd neighbor t")
  with 2(2) t obtain u1 where r1: "r1 = Inr u1"
    and rest: "neighbor_loop sent rest nd1 (if u1 then True else updated) = (nd', Inr False)"
    by (auto split: sum.splits)
  from neighbor_loop_flag_mono[OF rest] have u1: "\<not> u1" by auto
  from u r1 u1 have u': "update_routing_table nd neighbor t = (nd1, Inr False)" by simp
  from update_unchanged(1)[OF u'] have eq: "nd1 = nd" .
  have IH: "nd' = nd \<and>
     (\<forall>nb c t d nc nh. nb \<in> set rest \<and> map_of (neighbors nd) nb = Some c \<and> map_of sent nb = Some t \<and>
         (d, (nc, nh)) \<in> set t \<and> d \<noteq> name nd \<longrightarrow>
         \<not> cost_add (Num c) nc < fst (table_get (routing_table nd) d))"
    using 2(1)[OF t u[symmetric] r1 rest] unfolding eq .
  with update_unchanged(2)[OF u'] t show ?case by (auto, blast)
qed

lemma neighbor_loop_calls_false:
  "neighbor_loop sent nbs nd upd = (nd', Inr False) \<Longrightarrow> nb \<in> set nbs \<Longrightarrow> map_of sent nb = Some t \<Longrightarrow>
     update_routing_table nd nb t = (nd, Inr False)"
proof (induction sent nbs nd upd rule: neighbor_loop.induct)
  case (1 sent nd updated)
  then show ?case by simp
next
  case (2 sent neighbor rest nd updated)
  from 2(2) obtain t' where t': "map_of sent neighbor = Some t'"
    by (auto split: option.splits)
  obtain nd1 r1 where u: "update_routing_table nd neighbor t' = (nd1, r1)"
    by (cases "update_routing_table nd neighbor t'")
  with 2(2) t' obtain u1 where r1: "r1 = Inr u1"
    and rest: "neighbor_loop sent rest nd1 (if u1 then True else updated) = (nd', Inr False)"
    by (auto split: sum.splits)
  from neighbor_loop_flag_mono[OF rest] have u1: "\<not> u1" by auto
  from u r1 u1 have u': "update_routing_table nd neighbor t' = (nd1, Inr False)" by simp
  from update_unchanged(1)[OF u'] have eq: "nd1 = nd" .
  show ?case
  proof (cases "nb = neighbor")
    case True
    with u' eq t' 2(4) show ?thesis by simp
  next
    case False
    with 2(3) have "nb \<in> set rest" by simp
    from 2(1)[OF t' u[symmetric] r1 rest this 2(4)] eq show ?thesis by simp
  qed
qed

lemma neighbor_loop_false_init:
  "neighbor_loop sent nbs nd upd = (nd', Inr False) \<Longrightarrow>
     neighbor_loop sent nbs nd False = (nd, Inr False)"
proof (induction sent nbs nd upd rule: neighbor_loop.induct)
  case (1 sent nd updated)
  then show ?case by simp
next
  case (2 sent neighbor rest nd updated)
  from 2(2) obtain t' where t': "map_of sent neighbor = Some t'"
    by (auto split: option.splits)
  obtain nd1 r1 where u: "update_routing_table nd neighbor t' = (nd1, r1)"
    by (cases "update_routing_table nd neighbor t'")
  with 2(2) t' obtain u1 where r1: "r1 = Inr u1"
    and rest: "neighbor_loop sent rest nd1 (if u1 then True else updated) = (nd', Inr False)"
    by (auto split: sum.splits)
  from neighbor_loop_flag_mono[OF rest] have u1: "\<not> u1" by auto
  from u r1 u1 have u': "update_routing_table nd neighbor t' = (nd1, Inr False)" by simp
  from update_unchanged(1)[OF u'] have eq: "nd1 = nd" .
  from 2(1)[OF t' u[symmetric] r1 rest] eq have "neighbor_loop sent rest nd False = (nd, Inr False)"
    by simp
  with t' u' eq show ?case by simp
qed

lemma node_loop_all2:
  "node_loop sent ns upd = (ns', r) \<Longrightarrow>
     list_all2 (\<lambda>x x'. fst x' = fst x \<and> node_step sent (snd x) (snd x')) ns ns'"
proof (induction sent ns upd arbitrary: ns' r rule: node_loop.induct)
  case (1 sent updated)
  then show ?case by simp
next
  case (2 sent k nd rest updated)
  obtain nd1 r1 where n: "neighbor_loop sent (map fst (neighbors nd)) nd updated = (nd1, r1)"
    by (cases "neighbor_loop sent (map fst (neighbors nd)) nd updated")
  note s = neighbor_loop_step[OF n]
  have refl: "list_all2 (\<lambda>x x'. fst x' = fst x \<and> node_step sent (snd x) (snd x')) rest rest"
    by (simp add: list_all2_same node_step_refl)
  show ?case
  proof (cases r1)
    case (Inl e)
    with 2(2) n have "ns' = (k, nd1) # rest" by simp
    with s refl show ?thesis by simp
  next
    case (Inr u)
    obtain rest' r' where nl: "node_loop sent rest u = (rest', r')"
      by (cases "node_loop sent rest u")
    with 2(2) n Inr have "ns' = (k, nd1) # rest'" by simp
    with 2(1)[OF n[symmetric] Inr nl] s show ?thesis by simp
  qed
qed


lemma node_loop_flag_mono:
  "node_loop sent ns upd = (ns', Inr u) \<Longrightarrow> upd \<Longrightarrow> u"
proof (induction sent ns upd arbitrary: ns' rule: node_loop.induct)
  case (1 sent updated)
  then show ?case by simp
next
  case (2 sent k nd rest updated)
  obtain nd1 r1 where n: "neighbor_loop sent (map fst (neighbors nd)) nd updated = (nd1, r1)"
    by (cases "neighbor_loop sent (map fst (neighbors nd)) nd updated")
  with 2(2) obtain u1 rest' where r1: "r1 = Inr u1" and nl: "node_loop sent rest u1 = (rest', Inr u)"
    by (auto split: sum.splits prod.splits)
  from neighbor_loop_flag_mono[of sent _ nd updated nd1 u1] n r1 2(3) have u1 by simp
  from 2(1)[OF n[symmetric] r1 nl this] show ?case .
qed


lemma node_loop_unchanged:
  "node_loop sent ns upd = (ns', Inr False) \<Longrightarrow>
     ns' = ns \<and> \<not> upd \<and>
     (\<forall>(k, nd) \<in> set ns. neighbor_loop sent (map fst (neighbors nd)) nd False = (nd, Inr False))"
proof (induction sent ns upd arbitrary: ns' rule: node_loop.induct)
  case (1 sent updated)
  then show ?case by simp
next
  case (2 sent k nd rest updated)
  obtain nd1 r1 where n: "neighbor_loop sent (map fst (neighbors nd)) nd updated = (nd1, r1)"
    by (cases "neighbor_loop sent (map fst (neighbors nd)) nd updated")
  with 2(2) obtain u1 rest' where r1: "r1 = Inr u1" and nl: "node_loop sent rest u1 = (rest', Inr False)"
    and ns': "ns' = (k, nd1) # rest'"
    by (auto split: sum.splits prod.splits)
  from 2(1)[OF n[symmetric] r1 nl]
  have IH: "rest' = rest" "\<not> u1"
    "\<forall>(k, nd) \<in> set rest. neighbor_loop sent (map fst (neighbors nd)) nd False = (nd, Inr False)"
    by auto
  from n r1 IH(2) have n': "neighbor_loop sent (map fst (neighbors nd)) nd updated = (nd1, Inr False)"
    by simp
  from neighbor_loop_flag_mono[OF n'] have nu: "\<not> updated" by auto
  from neighbor_loop_unchanged[OF n'] have eq: "nd1 = nd" by simp
  from neighbor_loop_false_init[OF n'] have "neighbor_loop sent (map fst (neighbors nd)) nd False = (nd, Inr False)" .
  with IH ns' eq nu show ?case by simp
qed

lemma all2_map_of:
  "list_all2 (\<lambda>x x'. fst x' = fst x \<and> P (snd x) (snd x')) ns ns' \<Longrightarrow>
     map fst ns' = map fst ns \<and>
     (\<forall>k nd. map_of ns k = Some nd \<longrightarrow> (\<exists>nd'. map_of ns' k = Some nd' \<and> P nd nd'))"
  by (induction rule: list_all2_induct) auto






lemma node_names_dom: "node_names net = dom (map_of (nodes net))"
  by (simp add: node_names_def dom_map_of_conv_image_fst)




























lemma path_cost_single: "path_cost net [a, b] = (if map_of (nodes net) b = None then None else link_cost net a b)"
  by (auto split: option.splits)








lemma all2_topology:
  "list_all2 (\<lambda>x x'. fst x' = fst x \<and> node_step sent (snd x) (snd x')) ns ns' \<Longrightarrow>
     map (\<lambda>(k, nd). (k, name nd, neighbors nd)) ns' = map (\<lambda>(k, nd). (k, name nd, neighbors nd)) ns"
  by (induction rule: list_all2_induct) (auto simp: node_step_def)

lemma iteration_step:
  assumes "iteration net = (net', r)"
  shows "topology net' = topology net"
    and "map_of (nodes net) k = Some nd \<Longrightarrow>
         \<exists>nd'. map_of (nodes net') k = Some nd' \<and> node_step (sent_tables net) nd nd'"
    and "map_of (nodes net) k = None \<Longrightarrow> map_of (nodes net') k = None"
proof -
  from assms obtain ns' where nl: "node_loop (sent_tables net) (nodes net) False = (ns', r)"
    and net': "net' = net\<lparr>nodes := ns'\<rparr>"
    by (auto simp: iteration_def split: prod.splits)
  note a2 = node_loop_all2[OF nl]
  from all2_topology[OF a2] show "topology net' = topology net"
    by (simp add: topology_def net')
  from all2_map_of[OF a2] net'
  show "map_of (nodes net) k = Some nd \<Longrightarrow>
         \<exists>nd'. map_of (nodes net') k = Some nd' \<and> node_step (sent_tables net) nd nd'"
    by simp
  from all2_map_of[OF a2] have "map fst ns' = map fst (nodes net)" by simp
  then have "fst ` set ns' = fst ` set (nodes net)" by (metis list.set_map)
  then show "map_of (nodes net) k = None \<Longrightarrow> map_of (nodes net') k = None"
    by (simp add: map_of_eq_None_iff net')
qed

lemma iteration_cost_le: "cost_of (fst (iteration net)) a d \<le> cost_of net a d"
proof -
  obtain net' r where it: "iteration net = (net', r)" by (cases "iteration net")
  show ?thesis
  proof (cases "map_of (nodes net) a")
    case None
    with iteration_step(3)[OF it, of a] it show ?thesis
      by (simp add: cost_of_def table_of_def)
  next
    case (Some nd)
    with iteration_step(2)[OF it, of a nd] obtain nd' where
      "map_of (nodes net') a = Some nd'" "node_step (sent_tables net) nd nd'" by blast
    with Some it node_step_cost_le[of "sent_tables net" nd nd' d] show ?thesis
      by (simp add: cost_of_def table_of_def)
  qed
qed



lemma iteration_flag_false:
  assumes "iteration net = (net', Inr False)"
  shows "net' = net"
    and "(k, nd) \<in> set (nodes net) \<Longrightarrow>
           neighbor_loop (sent_tables net) (map fst (neighbors nd)) nd False = (nd, Inr False)"
proof -
  from assms obtain ns' where nl: "node_loop (sent_tables net) (nodes net) False = (ns', Inr False)"
    and net': "net' = net\<lparr>nodes := ns'\<rparr>"
    by (auto simp: iteration_def split: prod.splits)
  from node_loop_unchanged[OF nl] net' show "net' = net" by simp
  from node_loop_unchanged[OF nl]
  show "(k, nd) \<in> set (nodes net) \<Longrightarrow>
           neighbor_loop (sent_tables net) (map fst (neighbors nd)) nd False = (nd, Inr False)"
    by auto
qed

lemma cost_add_PosInf [simp]: "cost_add a PosInf = PosInf"
  by (cases a) auto

























lemma neighbor_loop_has_table:
  "neighbor_loop sent nbs nd upd = (nd', Inr u) \<Longrightarrow> nb \<in> set nbs \<Longrightarrow> map_of sent nb \<noteq> None"
proof (induction sent nbs nd upd rule: neighbor_loop.induct)
  case (1 sent nd updated)
  then show ?case by simp
next
  case (2 sent neighbor rest nd updated)
  from 2(2) obtain t where t: "map_of sent neighbor = Some t"
    by (auto split: option.splits)
  obtain nd1 r1 where u: "update_routing_table nd neighbor t = (nd1, r1)"
    by (cases "update_routing_table nd neighbor t")
  with 2(2) t obtain u1 where r1: "r1 = Inr u1"
    and rest: "neighbor_loop sent rest nd1 (if u1 then True else updated) = (nd', Inr u)"
    by (auto split: sum.splits)
  show ?case
  proof (cases "nb = neighbor")
    case True
    with t show ?thesis by simp
  next
    case False
    with 2(3) have "nb \<in> set rest" by simp
    from 2(1)[OF t u[symmetric] r1 rest this] show ?thesis .
  qed
qed

lemma update_obj_other:
  "update_routing_table_obj st self nb t = (st', r) \<Longrightarrow>
     length st' = length st \<and> (\<forall>i. i \<noteq> obj_table self \<longrightarrow> st' ! i = st ! i)"
  by (auto simp: update_routing_table_obj_def split: prod.splits)

lemma fold_update_obj_other:
  "i \<noteq> obj_table self \<Longrightarrow>
     fold (\<lambda>(nb, t) s. fst (update_routing_table_obj s self nb t)) calls st ! i = st ! i"
proof (induction calls arbitrary: st)
  case Nil
  then show ?case by simp
next
  case (Cons call calls)
  obtain nb t where c: "call = (nb, t)" by (cases call)
  obtain st1 r where u: "update_routing_table_obj st self nb t = (st1, r)"
    by (cases "update_routing_table_obj st self nb t")
  from update_obj_other[OF u] Cons.prems have "st1 ! i = st ! i" by simp
  with Cons.IH[OF Cons.prems, of st1] c u show ?case by simp
qed








section \<open>The claims\<close>

text \<open>
  C3: after \<^verbatim>\<open>initialize_routing_table\<close>, and after any sequence of
  \<^verbatim>\<open>update_routing_table\<close> calls that follows it (whatever the neighbour and the table
  of each call, failing calls included), the node's entry for its own name is \<open>(0, name)\<close>.
\<close>

theorem self_entry_invariant:
  "map_of (routing_table
      (fold (\<lambda>(neighbor, neighbor_table) nd. fst (update_routing_table nd neighbor neighbor_table))
         calls (initialize_routing_table self all_nodes)))
     (name self) = Some (Num 0, Some (name self))"
  using fold_update_self[of "initialize_routing_table self all_nodes" "(Num 0, Some (name self))" calls]
  by (simp add: initialize_self_entry)



text \<open>
  C10: a successful call changes no entry of a destination that is not a key of the
  neighbour table, every entry it changes has the neighbour as its next hop, and the
  node's name and neighbour links stay as they were.
\<close>

theorem update_frame:
  assumes "update_routing_table self neighbor neighbor_table = (self', Inr updated)"
  shows "name self' = name self \<and> neighbors self' = neighbors self \<and>
    (\<forall>d. d \<notin> fst ` set neighbor_table \<longrightarrow>
        map_of (routing_table self') d = map_of (routing_table self) d) \<and>
    (\<forall>d. map_of (routing_table self') d \<noteq> map_of (routing_table self) d \<longrightarrow>
        (\<exists>x. map_of (routing_table self') d = Some (x, Some neighbor)))"
proof -
  from assms obtain c rt' where c: "map_of (neighbors self) neighbor = Some c"
    and r: "relax_loop (name self) neighbor c neighbor_table (routing_table self) False = (rt', updated)"
    and s: "self' = self\<lparr>routing_table := rt'\<rparr>"
    by (auto simp: update_routing_table_def split: option.splits prod.splits)
  have "\<forall>d. d \<notin> fst ` set neighbor_table \<longrightarrow> map_of rt' d = map_of (routing_table self) d"
    using relax_loop_entry[OF r] by force
  moreover have "\<forall>d. map_of rt' d \<noteq> map_of (routing_table self) d \<longrightarrow>
        (\<exists>x. map_of rt' d = Some (x, Some neighbor))"
    using relax_loop_entry[OF r] by blast
  ultimately show ?thesis using s by simp
qed

theorem update_frame_witness:
  "update_routing_table nodeA ''B'' [(''C'', (Num 2, Some ''C''))] =
     (nodeA\<lparr>routing_table :=
        [(''B'', Num 1, Some ''B''), (''C'', Num 3, Some ''B''),
         (''D'', PosInf, None), (''A'', Num 0, Some ''A'')]\<rparr>, Inr True) \<and>
   name (nodeA\<lparr>routing_table :=
        [(''B'', Num 1, Some ''B''), (''C'', Num 3, Some ''B''),
         (''D'', PosInf, None), (''A'', Num 0, Some ''A'')]\<rparr>) = name nodeA \<and>
   neighbors (nodeA\<lparr>routing_table :=
        [(''B'', Num 1, Some ''B''), (''C'', Num 3, Some ''B''),
         (''D'', PosInf, None), (''A'', Num 0, Some ''A'')]\<rparr>) = neighbors nodeA \<and>
   map_of [(''B'', Num 1, Some ''B''), (''C'', Num 3, Some ''B''),
         (''D'', PosInf, None), (''A'', Num 0, Some ''A'')] ''D'' = map_of (routing_table nodeA) ''D''"
proof -
  have e: "update_routing_table nodeA ''B'' [(''C'', (Num 2, Some ''C''))] =
     (nodeA\<lparr>routing_table :=
        [(''B'', Num 1, Some ''B''), (''C'', Num 3, Some ''B''),
         (''D'', PosInf, None), (''A'', Num 0, Some ''A'')]\<rparr>, Inr True)"
    by (simp add: nodeA_def update_routing_table_def initialize_routing_table_def
          add_neighbor_def Node_def table_get_def)
  note fr = update_frame [OF e]
  from fr have "''D'' \<notin> fst ` set [(''C'', (Num 2, Some ''C''))] \<longrightarrow>
      map_of (routing_table (nodeA\<lparr>routing_table :=
        [(''B'', Num 1, Some ''B''), (''C'', Num 3, Some ''B''),
         (''D'', PosInf, None), (''A'', Num 0, Some ''A'')]\<rparr>)) ''D'' = map_of (routing_table nodeA) ''D''"
    by blast
  then have d: "map_of [(''B'', Num 1, Some ''B''), (''C'', Num 3, Some ''B''),
         (''D'', PosInf, None), (''A'', Num 0, Some ''A'')] ''D'' = map_of (routing_table nodeA) ''D''"
    by simp
  from fr have n: "name (nodeA\<lparr>routing_table :=
        [(''B'', Num 1, Some ''B''), (''C'', Num 3, Some ''B''),
         (''D'', PosInf, None), (''A'', Num 0, Some ''A'')]\<rparr>) = name nodeA"
    and nb: "neighbors (nodeA\<lparr>routing_table :=
        [(''B'', Num 1, Some ''B''), (''C'', Num 3, Some ''B''),
         (''D'', PosInf, None), (''A'', Num 0, Some ''A'')]\<rparr>) = neighbors nodeA"
    by blast+
  from e n nb d show ?thesis
    by (intro conjI)
qed

text \<open>
  C6: a call of \<^verbatim>\<open>update_routing_table\<close> with a neighbour that is not a key of
  \<^verbatim>\<open>self.neighbors\<close> raises \<^verbatim>\<open>KeyError\<close>, and the node, its routing table
  included, is as it was before the call.
\<close>

theorem update_unknown_neighbor:
  "map_of (neighbors self) neighbor = None \<Longrightarrow>
     update_routing_table self neighbor neighbor_table = (self, Inl (KeyError neighbor))"
  by (simp add: update_routing_table_def)

theorem update_unknown_neighbor_witness:
  "map_of (neighbors (add_neighbor (Node ''A'') ''B'' 1)) ''C'' = None \<and>
   update_routing_table (add_neighbor (Node ''A'') ''B'' 1) ''C'' [(''D'', (Num 2, Some ''D''))]
     = (add_neighbor (Node ''A'') ''B'' 1, Inl (KeyError ''C'')) \<and>
   routing_table (fst (update_routing_table (add_neighbor (Node ''A'') ''B'' 1) ''C''
       [(''D'', (Num 2, Some ''D''))])) = [(''B'', (Num 1, Some ''B''))]"
proof -
  have h: "map_of (neighbors (add_neighbor (Node ''A'') ''B'' 1)) ''C'' = None"
    by (simp add: add_neighbor_def Node_def)
  show ?thesis
    using h update_unknown_neighbor [OF h, of "[(''D'', (Num 2, Some ''D''))]"]
    by (simp add: add_neighbor_def Node_def)
qed






text \<open>
  C4: a call of \<^verbatim>\<open>update_routing_table\<close>, successful or not, leaves the cost of every
  destination as it was or makes it strictly smaller, and so does a whole iteration of the
  convergence loop for every node and destination (a missing entry counting as
  \<open>+infinity\<close>).
\<close>

theorem cost_non_increasing:
  "(fst (table_get (routing_table (fst (update_routing_table self neighbor neighbor_table))) d)
      = fst (table_get (routing_table self) d) \<or>
    fst (table_get (routing_table (fst (update_routing_table self neighbor neighbor_table))) d)
      < fst (table_get (routing_table self) d)) \<and>
   (cost_of (fst (iteration net)) a d = cost_of net a d \<or>
    cost_of (fst (iteration net)) a d < cost_of net a d)"
proof -
  obtain self' r where u: "update_routing_table self neighbor neighbor_table = (self', r)"
    by (cases "update_routing_table self neighbor neighbor_table")
  from update_routing_table_cost_le[OF u, of d] u iteration_cost_le[of net a d]
  show ?thesis by (auto simp: le_less)
qed

text \<open>
  C8: when an iteration ends with no update reported, the network is exactly as before the
  iteration, one more iteration from that state gives the same state and reports no update
  again, and every \<^verbatim>\<open>update_routing_table\<close> call of it (each node, each of its
  neighbours, with the table that neighbour sent) returns False and leaves the node as it is.
\<close>

theorem iteration_idempotent_at_fixpoint:
  assumes "iteration net = (net', Inr False)"
  shows "net' = net \<and> iteration net' = (net', Inr False) \<and>
     (\<forall>(k, nd) \<in> set (nodes net'). \<forall>nb \<in> set (map fst (neighbors nd)).
        \<exists>t. map_of (sent_tables net') nb = Some t \<and>
            update_routing_table nd nb t = (nd, Inr False))"
proof -
  note eq = iteration_flag_false(1)[OF assms]
  have "\<exists>t. map_of (sent_tables net) nb = Some t \<and> update_routing_table nd nb t = (nd, Inr False)"
    if "(k, nd) \<in> set (nodes net)" "nb \<in> set (map fst (neighbors nd))" for k nd nb
  proof -
    note nl = iteration_flag_false(2)[OF assms that(1)]
    from neighbor_loop_has_table[OF nl that(2)] obtain t where t: "map_of (sent_tables net) nb = Some t"
      by auto
    from neighbor_loop_calls_false[OF nl that(2) t] t show ?thesis by blast
  qed
  with eq assms show ?thesis by blast
qed

theorem iteration_idempotent_at_fixpoint_witness:
  "iteration pair_net = (pair_net, Inr False) \<and>
   update_routing_table
     \<lparr>name = ''A'', neighbors = [(''B'', 1)],
      routing_table = [(''B'', Num 1, Some ''B''), (''A'', Num 0, Some ''A'')]\<rparr>
     ''B'' [(''A'', Num 1, Some ''A''), (''B'', Num 0, Some ''B'')] =
     (\<lparr>name = ''A'', neighbors = [(''B'', 1)],
       routing_table = [(''B'', Num 1, Some ''B''), (''A'', Num 0, Some ''A'')]\<rparr>, Inr False)"
proof -
  have h: "iteration pair_net = (pair_net, Inr False)"
    by code_simp
  have n: "(''A'', \<lparr>name = ''A'', neighbors = [(''B'', 1)],
      routing_table = [(''B'', Num 1, Some ''B''), (''A'', Num 0, Some ''A'')]\<rparr>) \<in> set (nodes pair_net)"
    by code_simp
  have s: "map_of (sent_tables pair_net) ''B'' = Some [(''A'', Num 1, Some ''A''), (''B'', Num 0, Some ''B'')]"
    by code_simp
  from iteration_idempotent_at_fixpoint [OF h] n
  have "\<exists>t. map_of (sent_tables pair_net) ''B'' = Some t \<and>
      update_routing_table \<lparr>name = ''A'', neighbors = [(''B'', 1)],
      routing_table = [(''B'', Num 1, Some ''B''), (''A'', Num 0, Some ''A'')]\<rparr> ''B'' t =
     (\<lparr>name = ''A'', neighbors = [(''B'', 1)],
       routing_table = [(''B'', Num 1, Some ''B''), (''A'', Num 0, Some ''A'')]\<rparr>, Inr False)"
    by fastforce
  with s h show ?thesis by simp
qed



text \<open>
  C7: \<^verbatim>\<open>send_routing_table\<close> returns a reference to a new dictionary, different from the
  node's own and from every reference that existed before, holding the node's table of
  that moment. Whatever is written to the node's table afterwards, by any sequence of
  \<^verbatim>\<open>update_routing_table\<close> calls on the node or by any other assignment to it, the
  snapshot still holds the table as it was when exported.
\<close>

theorem snapshot_independent:
  assumes "obj_table self < length st"
    and "send_routing_table_obj st self = (snap, st1)"
  shows "snap \<noteq> obj_table self \<and> \<not> snap < length st \<and>
     st1 ! snap = send_routing_table (node_value st self) \<and>
     node_value st1 self = node_value st self \<and>
     (st1[obj_table self := t]) ! snap = st ! obj_table self \<and>
     fold (\<lambda>(neighbor, neighbor_table) s.
             fst (update_routing_table_obj s self neighbor neighbor_table)) calls st1 ! snap
       = st ! obj_table self"
proof -
  from assms(2) have s: "snap = length st" and st1: "st1 = st @ [st ! obj_table self]"
    by (auto simp: send_routing_table_obj_def deepcopy_def)
  from s assms(1) have ne: "snap \<noteq> obj_table self" by simp
  have v: "st1 ! snap = st ! obj_table self" by (simp add: s st1)
  have same: "st1 ! obj_table self = st ! obj_table self"
    using assms(1) by (simp add: st1 nth_append)
  from ne have w: "(st1[obj_table self := t]) ! snap = st ! obj_table self"
    using v by simp
  from fold_update_obj_other[OF ne, of calls st1] v
  have f: "fold (\<lambda>(neighbor, neighbor_table) s.
             fst (update_routing_table_obj s self neighbor neighbor_table)) calls st1 ! snap
       = st ! obj_table self" by simp
  from ne s v same w f show ?thesis
    by (simp add: send_routing_table_def node_value_def)
qed

theorem snapshot_independent_witness:
  "obj_table objA < length store0 \<and>
   send_routing_table_obj store0 objA = (2, store0 @ [routing_table nodeA]) \<and>
   fst (update_routing_table_obj (store0 @ [routing_table nodeA]) objA ''B'' 1) =
     [[(''B'', Num 1, Some ''B''), (''C'', Num 3, Some ''B''),
       (''D'', Num 6, Some ''B''), (''A'', Num 0, Some ''A'')],
      tableB,
      [(''B'', Num 1, Some ''B''), (''C'', Num 4, Some ''C''),
       (''D'', PosInf, None), (''A'', Num 0, Some ''A'')]] \<and>
   fold (\<lambda>(neighbor, neighbor_table) s.
             fst (update_routing_table_obj s objA neighbor neighbor_table)) [(''B'', 1)]
        (store0 @ [routing_table nodeA]) ! 2 = store0 ! obj_table objA"
proof -
  have h1: "obj_table objA < length store0"
    by (simp add: objA_def store0_def)
  have h2: "send_routing_table_obj store0 objA = (2, store0 @ [routing_table nodeA])"
    by (simp add: send_routing_table_obj_def deepcopy_def objA_def store0_def)
  have e: "fst (update_routing_table_obj (store0 @ [routing_table nodeA]) objA ''B'' 1) =
     [[(''B'', Num 1, Some ''B''), (''C'', Num 3, Some ''B''),
       (''D'', Num 6, Some ''B''), (''A'', Num 0, Some ''A'')],
      tableB,
      [(''B'', Num 1, Some ''B''), (''C'', Num 4, Some ''C''),
       (''D'', PosInf, None), (''A'', Num 0, Some ''A'')]]"
    by (simp add: update_routing_table_obj_def node_value_def objA_def store0_def nodeA_def tableB_def
          update_routing_table_def initialize_routing_table_def add_neighbor_def Node_def table_get_def)
  from snapshot_independent [OF h1 h2, of _ "[(''B'', 1)]"]
  have "fold (\<lambda>(neighbor, neighbor_table) s.
             fst (update_routing_table_obj s objA neighbor neighbor_table)) [(''B'', 1)]
        (store0 @ [routing_table nodeA]) ! 2 = store0 ! obj_table objA"
    by blast
  with h1 h2 e show ?thesis by (intro conjI)
qed

end
